theory Spec2Isabelle
  imports Main
begin

section \<open>The event-sourced scheduler of src/engine.ts\<close>

text \<open>
  A shallow embedding of the class \<open>Timeline\<close> of \<^verbatim>\<open>src/engine.ts\<close>: the event log
  (\<open>history\<close>), the scheduler state (\<open>tasks\<close>, \<open>isReplay\<close>, \<open>replayIndex\<close>), the
  method \<open>enqueueEvent\<close> and the body of the run loop.

  JavaScript mutates the timeline in place and an exception does not undo a mutation,
  so every operation returns the timeline it leaves behind together with its result:
  \<open>(Inl error, timeline)\<close> for a throw, \<open>(Inr value, timeline)\<close> for a normal return.
\<close>

subsection \<open>Values, events and callbacks\<close>

text \<open>
  A value of TypeScript type \<open>unknown\<close>. Task ids are numbers at run time; the field
  \<open>taskId\<close> of a \<open>PromiseRegister\<close> event built by the run loop is \<open>event.value as number\<close>
  (line 164), an unchecked cast, so task ids are kept as values and the keys of the task
  table are values too. A log index \<open>n\<close> is the value \<open>Num (int n)\<close>.
\<close>

datatype val = Undefined | Num int | Str string

text \<open>
  The event interfaces of lines 18-59. A callback is a closure that re-enters the isolate;
  what it can do to the timeline is to call \<open>enqueueEvent\<close> (through the functions
  injected at lines 283-363), any number of times, each time getting the returned index.
  An \<open>action\<close> is one such run: \<open>Done\<close> returns, \<open>Enqueue e k\<close> calls
  \<open>enqueueEvent e\<close> and goes on as \<open>k index\<close>. A \<open>TaskCompleteCallback\<close> takes
  \<open>(valueIsTaskId, value)\<close>; the callback of \<open>TimerStart\<close> takes no argument.
\<close>

datatype event =
    PromiseCreate
  | PromiseResolve val bool val
  | PromiseRegister val "bool \<Rightarrow> val \<Rightarrow> action"
  | PromiseComplete val bool val "(bool \<Rightarrow> val \<Rightarrow> action) list"
  | TimerStart int action
  | TimerCancel val
  | TimerResolve val bool val
and action =
    Done
  | Enqueue event "nat \<Rightarrow> action"

type_synonym callback = "bool \<Rightarrow> val \<Rightarrow> action"

text \<open>The field \<open>type\<close> of an event.\<close>

fun type_of :: "event \<Rightarrow> string" where
  "type_of PromiseCreate = ''PromiseCreate''"
| "type_of (PromiseResolve taskId valueIsTaskId v) = ''PromiseResolve''"
| "type_of (PromiseRegister taskId cb) = ''PromiseRegister''"
| "type_of (PromiseComplete taskId valueIsTaskId v cbs) = ''PromiseComplete''"
| "type_of (TimerStart ms cb) = ''TimerStart''"
| "type_of (TimerCancel timerId) = ''TimerCancel''"
| "type_of (TimerResolve taskId valueIsTaskId v) = ''TimerResolve''"

text \<open>
  The union type \<open>Event\<close> of lines 61-68, the type of the entries of \<open>history\<close> and of
  the argument of \<open>enqueueEvent\<close>: it lists six of the seven interfaces, and
  \<open>TimerCancelEvent\<close> is the one it leaves out.
\<close>

fun in_Event_union :: "event \<Rightarrow> bool" where
  "in_Event_union (TimerCancel timerId) = False"
| "in_Event_union e = True"

text \<open>
  \<open>sanitizeEvent\<close> (lines 100-103) copies the event without its keys \<open>callback\<close> and
  \<open>callbacks\<close>; what is left is the type and the plain fields.
\<close>

datatype sanitized =
    SPromiseCreate
  | SPromiseResolve val bool val
  | SPromiseRegister val
  | SPromiseComplete val bool val
  | STimerStart int
  | STimerCancel val
  | STimerResolve val bool val

fun sanitizeEvent :: "event \<Rightarrow> sanitized" where
  "sanitizeEvent PromiseCreate = SPromiseCreate"
| "sanitizeEvent (PromiseResolve taskId valueIsTaskId v) = SPromiseResolve taskId valueIsTaskId v"
| "sanitizeEvent (PromiseRegister taskId cb) = SPromiseRegister taskId"
| "sanitizeEvent (PromiseComplete taskId valueIsTaskId v cbs) = SPromiseComplete taskId valueIsTaskId v"
| "sanitizeEvent (TimerStart ms cb) = STimerStart ms"
| "sanitizeEvent (TimerCancel timerId) = STimerCancel timerId"
| "sanitizeEvent (TimerResolve taskId valueIsTaskId v) = STimerResolve taskId valueIsTaskId v"

subsection \<open>Errors\<close>

text \<open>
  The three exceptions the class can raise: \<open>InvalidSchedulerState\<close> (lines 70-72) with
  one of its two messages, the \<open>AssertionError\<close> of \<open>assert.deepStrictEqual\<close> with its
  \<open>actual\<close> and \<open>expected\<close>, and the \<open>TypeError\<close> of reading \<open>.type\<close> of
  \<open>undefined\<close>.
\<close>

datatype message =
    Expected_got_at_history_index string string int
  | No_task_state_for_task_Id val

datatype error =
    InvalidSchedulerState message
  | AssertionError sanitized sanitized
  | TypeError

fun error_name :: "error \<Rightarrow> string" where
  "error_name (InvalidSchedulerState m) = ''InvalidSchedulerState''"
| "error_name (AssertionError actual expected) = ''AssertionError''"
| "error_name TypeError = ''TypeError''"

subsection \<open>Task states and the timeline\<close>

datatype task_state =
    Created "callback list"
  | Resolved "callback list" bool val
  | Rejected "callback list" val

fun callbacks :: "task_state \<Rightarrow> callback list" where
  "callbacks (Created cbs) = cbs"
| "callbacks (Resolved cbs valueIsTaskId v) = cbs"
| "callbacks (Rejected cbs err) = cbs"

text \<open>
  The fields of \<open>Timeline\<close> with those of \<open>SchedulerState\<close> (lines 94-98, 106-107).
  The hook \<open>onEnqueue\<close> is left out: it is set only while the run loop waits on real time
  (lines 241-252), where it wakes the loop, and it touches none of these fields.
\<close>

record timeline =
  history :: "event list"
  tasks :: "val \<rightharpoonup> task_state"
  isReplay :: bool
  replayIndex :: int

definition Timeline :: "event list \<Rightarrow> timeline" where
  "Timeline h = \<lparr>history = h, tasks = Map.empty, isReplay = (length h > 0), replayIndex = -1\<rparr>"

definition getTaskState :: "val \<Rightarrow> timeline \<Rightarrow> error + task_state" where
  "getTaskState taskId tml =
     (case tasks tml taskId of
        None \<Rightarrow> Inl (InvalidSchedulerState (No_task_state_for_task_Id taskId))
      | Some task \<Rightarrow> Inr task)"

definition startReplay :: "timeline \<Rightarrow> timeline" where
  "startReplay tml = tml\<lparr>isReplay := True, replayIndex := -1\<rparr>"

subsection \<open>enqueueEvent\<close>

text \<open>\<open>this.history[i]\<close>: \<open>undefined\<close> outside the array.\<close>

definition history_at :: "event list \<Rightarrow> int \<Rightarrow> event option" where
  "history_at h i = (if 0 \<le> i \<and> i < int (length h) then Some (h ! nat i) else None)"

fun is_TimerResolve :: "event option \<Rightarrow> bool" where
  "is_TimerResolve (Some (TimerResolve taskId valueIsTaskId v)) = True"
| "is_TimerResolve e = False"

text \<open>
  The loop of line 131,
  \<^verbatim>\<open>while (this.history[++this.state.replayIndex].type === 'TimerResolve') ;\<close>
  as the value of \<open>replayIndex\<close> it stops at: the first index after the cursor that is
  outside the history (where reading \<open>.type\<close> throws) or holds another type.
\<close>

function fast_forward :: "event list \<Rightarrow> int \<Rightarrow> int" where
  "fast_forward h i =
     (if is_TimerResolve (history_at h (i + 1)) then fast_forward h (i + 1) else i + 1)"
  by pat_completeness auto
termination
proof (relation "measure (\<lambda>(h, i). nat (int (length h) - i))")
  show "wf (measure (\<lambda>(h, i). nat (int (length h) - i)))" by simp
next
  fix h :: "event list" and i :: int
  assume "is_TimerResolve (history_at h (i + 1))"
  then have "i + 1 < int (length h)"
    by (cases "0 \<le> i + 1 \<and> i + 1 < int (length h)") (simp_all add: history_at_def)
  then show "((h, i + 1), (h, i)) \<in> measure (\<lambda>(h, i). nat (int (length h) - i))"
    by simp
qed

declare fast_forward.simps [simp del]

definition enqueueEvent :: "event \<Rightarrow> timeline \<Rightarrow> (error + nat) \<times> timeline" where
  "enqueueEvent event tml =
     (if isReplay tml then
        (let j = fast_forward (history tml) (replayIndex tml);
             tml' = tml\<lparr>replayIndex := j\<rparr>
         in case history_at (history tml) j of
              None \<Rightarrow> (Inl TypeError, tml')
            | Some historyEvent \<Rightarrow>
                if type_of historyEvent \<noteq> type_of event then
                  (Inl (InvalidSchedulerState
                     (Expected_got_at_history_index (type_of historyEvent) (type_of event) j)), tml')
                else if sanitizeEvent event \<noteq> sanitizeEvent historyEvent then
                  (Inl (AssertionError (sanitizeEvent event) (sanitizeEvent historyEvent)), tml')
                else (Inr (nat j), tml'\<lparr>history := (history tml)[nat j := event]\<rparr>))
      else (Inr (length (history tml)), tml\<lparr>history := history tml @ [event]\<rparr>))"

subsection \<open>Callbacks and the run loop\<close>

text \<open>
  Calling a callback: its calls of \<open>enqueueEvent\<close> in turn; a throw of \<open>enqueueEvent\<close>
  ends the callback and passes through it. An exception raised by the workflow code
  itself is not modelled.
\<close>

primrec call :: "action \<Rightarrow> timeline \<Rightarrow> (error + unit) \<times> timeline" where
  "call Done tml = (Inr (), tml)"
| "call (Enqueue e k) tml =
     (case enqueueEvent e tml of
        (Inl err, tml') \<Rightarrow> (Inl err, tml')
      | (Inr i, tml') \<Rightarrow> call (k i) tml')"

text \<open>
  The loop of lines 231-233, \<^verbatim>\<open>for (const callback of event.callbacks) callback(...)\<close>.
\<close>

fun call_all :: "callback list \<Rightarrow> bool \<Rightarrow> val \<Rightarrow> timeline \<Rightarrow> (error + unit) \<times> timeline" where
  "call_all [] valueIsTaskId v tml = (Inr (), tml)"
| "call_all (cb # cbs) valueIsTaskId v tml =
     (case call (cb valueIsTaskId v) tml of
        (Inl err, tml') \<Rightarrow> (Inl err, tml')
      | (Inr u, tml') \<Rightarrow> call_all cbs valueIsTaskId v tml')"

text \<open>
  The closure of lines 165-172, registered on the referenced task when a task is resolved
  with another task: it enqueues the resolution of the outer task \<open>taskId\<close>.
\<close>

definition forward :: "val \<Rightarrow> callback" where
  "forward taskId = (\<lambda>valueIsTaskId v. Enqueue (PromiseResolve taskId valueIsTaskId v) (\<lambda>i. Done))"

text \<open>
  A started timer is an entry \<open>(ms, taskId)\<close> of \<open>pendingPromises\<close> (lines 217-227): the
  wait of \<open>ms\<close> milliseconds and, when it has elapsed, the call of \<open>enqueueEvent\<close> with
  the \<open>TimerResolve\<close> of the task.
\<close>

type_synonym timer = "int \<times> nat"

definition timer_elapse :: "nat \<Rightarrow> timeline \<Rightarrow> (error + nat) \<times> timeline" where
  "timer_elapse taskId tml = enqueueEvent (TimerResolve (Num (int taskId)) False Undefined) tml"

text \<open>
  \<^verbatim>\<open>await new Promise((resolve) => setImmediate(resolve))\<close> (lines 181, 198) gives the
  event loop one turn, in which the waits that have elapsed enqueue their events; a throw
  there rejects the timer's own promise and not the handler. \<open>elapsed\<close> lists the tasks
  of those waits.
\<close>

fun tick :: "nat list \<Rightarrow> timeline \<Rightarrow> timeline" where
  "tick [] tml = tml"
| "tick (taskId # elapsed) tml = tick elapsed (snd (timer_elapse taskId tml))"

text \<open>
  The state of \<open>run\<close>: its local \<open>pendingPromises\<close> and the timeline. One step of the
  \<open>for\<close> loop handles the event at \<open>eventIndex\<close> (lines 152-239) and either goes on
  (\<open>break\<close>) or leaves \<open>run\<close> (the \<open>return\<close> of line 235).
\<close>

type_synonym run_state = "timer list \<times> timeline"

datatype outcome = Continue | Return

fun resolve :: "nat list \<Rightarrow> val \<Rightarrow> bool \<Rightarrow> val \<Rightarrow> run_state \<Rightarrow> (error + outcome) \<times> run_state" where
  "resolve elapsed taskId valueIsTaskId v (pendingPromises, tml) =
     (case getTaskState taskId tml of
        Inl err \<Rightarrow> (Inl err, pendingPromises, tml)
      | Inr task \<Rightarrow>
          if valueIsTaskId then
            (case enqueueEvent (PromiseRegister v (forward taskId)) tml of
               (Inl err, tml') \<Rightarrow> (Inl err, pendingPromises, tml')
             | (Inr i, tml') \<Rightarrow> (Inr Continue, pendingPromises, tml'))
          else
            (let tml1 = tick elapsed (tml\<lparr>tasks := (tasks tml)(taskId \<mapsto> Resolved [] False v)\<rparr>)
             in if length (callbacks task) > 0 then
                  (case enqueueEvent (PromiseComplete taskId False v (callbacks task)) tml1 of
                     (Inl err, tml') \<Rightarrow> (Inl err, pendingPromises, tml')
                   | (Inr i, tml') \<Rightarrow> (Inr Continue, pendingPromises, tml'))
                else (Inr Continue, pendingPromises, tml1)))"

fun handle_event :: "nat list \<Rightarrow> nat \<Rightarrow> event \<Rightarrow> run_state \<Rightarrow> (error + outcome) \<times> run_state" where
  "handle_event elapsed eventIndex PromiseCreate (pendingPromises, tml) =
     (Inr Continue, pendingPromises,
      tml\<lparr>tasks := (tasks tml)(Num (int eventIndex) \<mapsto> Created [])\<rparr>)"
| "handle_event elapsed eventIndex (TimerResolve taskId valueIsTaskId v) s =
     resolve elapsed taskId valueIsTaskId v s"
| "handle_event elapsed eventIndex (PromiseResolve taskId valueIsTaskId v) s =
     resolve elapsed taskId valueIsTaskId v s"
| "handle_event elapsed eventIndex (PromiseRegister taskId cb) (pendingPromises, tml) =
     (case getTaskState taskId tml of
        Inl err \<Rightarrow> (Inl err, pendingPromises, tml)
      | Inr (Resolved cbs valueIsTaskId v) \<Rightarrow>
          (case enqueueEvent (PromiseComplete taskId valueIsTaskId v [cb]) (tick elapsed tml) of
             (Inl err, tml') \<Rightarrow> (Inl err, pendingPromises, tml')
           | (Inr i, tml') \<Rightarrow> (Inr Continue, pendingPromises, tml'))
      | Inr (Created cbs) \<Rightarrow>
          (Inr Continue, pendingPromises, tml\<lparr>tasks := (tasks tml)(taskId \<mapsto> Created (cbs @ [cb]))\<rparr>)
      | Inr (Rejected cbs err) \<Rightarrow> (Inr Continue, pendingPromises, tml))"
| "handle_event elapsed eventIndex (TimerStart ms cb) (pendingPromises, tml) =
     (case enqueueEvent PromiseCreate tml of
        (Inl err, tml1) \<Rightarrow> (Inl err, pendingPromises, tml1)
      | (Inr taskId, tml1) \<Rightarrow>
          (case enqueueEvent (PromiseRegister (Num (int taskId)) (\<lambda>valueIsTaskId v. cb)) tml1 of
             (Inl err, tml2) \<Rightarrow> (Inl err, pendingPromises, tml2)
           | (Inr i, tml2) \<Rightarrow>
               (Inr Continue,
                (if \<not> isReplay tml2 then pendingPromises @ [(ms, taskId)] else pendingPromises),
                tml2)))"
| "handle_event elapsed eventIndex (PromiseComplete taskId valueIsTaskId v cbs) (pendingPromises, tml) =
     (case call_all cbs valueIsTaskId v tml of
        (Inl err, tml') \<Rightarrow> (Inl err, pendingPromises, tml')
      | (Inr u, tml') \<Rightarrow>
          (Inr (if taskId = Num 0 then Return else Continue), pendingPromises, tml'))"
| "handle_event elapsed eventIndex (TimerCancel timerId) (pendingPromises, tml) =
     (Inr Continue, pendingPromises, tml)"

text \<open>
  The \<open>for\<close> loop of line 151, from \<open>eventIndex\<close> to the end of the history, which the
  handlers extend while it runs. A callback can enqueue without end, so the loop takes
  fuel, one unit for each event: \<open>OutOfFuel\<close> says that the model stopped before the
  loop did, with the state reached so far. \<open>sched i\<close> lists the waits that elapse in the
  tick of the handler of index \<open>i\<close>.
\<close>

datatype status = Threw error | Returned | Drained | OutOfFuel

fun drain :: "nat \<Rightarrow> (nat \<Rightarrow> nat list) \<Rightarrow> nat \<Rightarrow> run_state \<Rightarrow> status \<times> nat \<times> run_state" where
  "drain fuel sched eventIndex (pendingPromises, tml) =
     (if eventIndex < length (history tml) then
        (case fuel of
           0 \<Rightarrow> (OutOfFuel, eventIndex, pendingPromises, tml)
         | Suc fuel' \<Rightarrow>
            (case handle_event (sched eventIndex) eventIndex (history tml ! eventIndex)
                    (pendingPromises, tml) of
               (Inl err, s) \<Rightarrow> (Threw err, eventIndex, s)
             | (Inr Return, s) \<Rightarrow> (Returned, eventIndex, s)
             | (Inr Continue, s) \<Rightarrow> drain fuel' sched (Suc eventIndex) s))
      else (Drained, eventIndex, pendingPromises, tml))"

declare drain.simps [simp del]

text \<open>
  One pass of the \<open>while (true)\<close> of \<open>run\<close> (lines 150-256), up to the point where it
  either leaves \<open>run\<close> or starts to wait for a timer: \<open>run\<close> returns when the loop met
  the completion of task 0, or when the history is drained and no wait is pending. The
  wait itself (lines 241-252) is real time and is not modelled, nor is its continuation
  of line 250, which empties \<open>pendingPromises\<close> once the waits of that pass have all
  elapsed: the development follows \<open>run\<close> up to its first wait.
\<close>

datatype pass = Run_threw error | Run_returned | Run_awaits_timers | Run_out_of_fuel

definition run_pass :: "nat \<Rightarrow> (nat \<Rightarrow> nat list) \<Rightarrow> nat \<Rightarrow> run_state \<Rightarrow> pass \<times> nat \<times> run_state" where
  "run_pass fuel sched eventIndex s =
     (case drain fuel sched eventIndex s of
        (Threw err, r) \<Rightarrow> (Run_threw err, r)
      | (Returned, r) \<Rightarrow> (Run_returned, r)
      | (OutOfFuel, r) \<Rightarrow> (Run_out_of_fuel, r)
      | (Drained, i, pendingPromises, tml) \<Rightarrow>
          (if length pendingPromises > 0 then (Run_awaits_timers, i, pendingPromises, tml)
           else (Run_returned, i, pendingPromises, tml)))"

subsection \<open>Example runs\<close>

text \<open>
  A history recorded for a workflow that creates its root task 0, registers on it a
  callback that enqueues nothing and resolves it with 42; and the calls of \<open>main\<close> of
  a changed workflow, whose callback creates a promise.
\<close>

definition recorded :: "event list" where
  "recorded = [PromiseCreate, PromiseRegister (Num 0) (\<lambda>valueIsTaskId v. Done),
               PromiseResolve (Num 0) False (Num 42),
               PromiseComplete (Num 0) False (Num 42) [\<lambda>valueIsTaskId v. Done]]"

definition replayed_main :: action where
  "replayed_main =
     Enqueue PromiseCreate (\<lambda>taskId.
       Enqueue (PromiseRegister (Num (int taskId))
                  (\<lambda>valueIsTaskId v. Enqueue PromiseCreate (\<lambda>i. Done))) (\<lambda>i.
         Enqueue (PromiseResolve (Num (int taskId)) False (Num 42)) (\<lambda>i. Done)))"

text \<open>
  The calls of \<open>main\<close> of a workflow that creates a promise, calls its \<open>resolve\<close> twice,
  with 1 and then with 2, and registers a callback on it that enqueues nothing.
\<close>

definition resolve_twice :: action where
  "resolve_twice =
     Enqueue PromiseCreate (\<lambda>taskId.
       Enqueue (PromiseResolve (Num (int taskId)) False (Num 1)) (\<lambda>i.
         Enqueue (PromiseResolve (Num (int taskId)) False (Num 2)) (\<lambda>i.
           Enqueue (PromiseRegister (Num (int taskId)) (\<lambda>valueIsTaskId v. Done)) (\<lambda>i. Done))))"



section \<open>Properties\<close>

subsection \<open>The cursor, and what enqueueEvent and the callbacks leave unchanged\<close>

lemma fast_forward_gt: "i < fast_forward h i"
proof (induction h i rule: fast_forward.induct)
  case (1 h i)
  show ?case
  proof (cases "is_TimerResolve (history_at h (i + 1))")
    case True
    with "1" have "i + 1 < fast_forward h (i + 1)" by simp
    moreover from True have "fast_forward h i = fast_forward h (i + 1)"
      by (subst fast_forward.simps) simp
    ultimately show ?thesis by simp
  next
    case False
    then have "fast_forward h i = i + 1" by (subst fast_forward.simps) simp
    then show ?thesis by simp
  qed
qed

lemma fast_forward_stop: "\<not> is_TimerResolve (history_at h (fast_forward h i))"
proof (induction h i rule: fast_forward.induct)
  case (1 h i)
  show ?case
  proof (cases "is_TimerResolve (history_at h (i + 1))")
    case True
    with "1" show ?thesis by (subst fast_forward.simps) simp
  next
    case False
    then show ?thesis by (subst fast_forward.simps) simp
  qed
qed

lemma fast_forward_skipped:
  "i < k \<Longrightarrow> k < fast_forward h i \<Longrightarrow> is_TimerResolve (history_at h k)"
proof (induction h i rule: fast_forward.induct)
  case (1 h i)
  show ?case
  proof (cases "is_TimerResolve (history_at h (i + 1))")
    case True
    then have eq: "fast_forward h i = fast_forward h (i + 1)"
      by (subst fast_forward.simps) simp
    show ?thesis
    proof (cases "k = i + 1")
      case True
      with \<open>is_TimerResolve (history_at h (i + 1))\<close> show ?thesis by simp
    next
      case False
      with "1.prems" have "i + 1 < k" by simp
      with "1.IH" [OF True] "1.prems" eq show ?thesis by simp
    qed
  next
    case False
    then have "fast_forward h i = i + 1" by (subst fast_forward.simps) simp
    with "1.prems" show ?thesis by simp
  qed
qed

lemma enqueueEvent_live:
  "\<not> isReplay tml \<Longrightarrow>
   enqueueEvent e tml = (Inr (length (history tml)), tml\<lparr>history := history tml @ [e]\<rparr>)"
  by (simp add: enqueueEvent_def)

lemma enqueueEvent_tasks: "tasks (snd (enqueueEvent e tml)) = tasks tml"
  by (simp add: enqueueEvent_def Let_def split: option.splits)

lemma enqueueEvent_isReplay: "isReplay (snd (enqueueEvent e tml)) = isReplay tml"
  by (simp add: enqueueEvent_def Let_def split: option.splits)

lemma call_tasks: "tasks (snd (call a tml)) = tasks tml"
proof (induction a arbitrary: tml rule: action.induct [where ?P1.0 = "\<lambda>e. True"])
  case (Enqueue e k)
  obtain r tml' where eq: "enqueueEvent e tml = (r, tml')" by (cases "enqueueEvent e tml")
  then have t: "tasks tml' = tasks tml" using enqueueEvent_tasks [of e tml] by simp
  show ?case
  proof (cases r)
    case (Inl err)
    with eq t show ?thesis by simp
  next
    case (Inr i)
    have "tasks (snd (call (k i) tml')) = tasks tml'" by (rule Enqueue.IH) simp
    with eq t Inr show ?thesis by simp
  qed
qed simp_all

lemma call_all_tasks: "tasks (snd (call_all cbs b v tml)) = tasks tml"
proof (induction cbs arbitrary: tml)
  case Nil
  show ?case by simp
next
  case (Cons cb cbs)
  obtain r tml' where eq: "call (cb b v) tml = (r, tml')" by (cases "call (cb b v) tml")
  then have t: "tasks tml' = tasks tml" using call_tasks [of "cb b v" tml] by simp
  show ?case
  proof (cases r)
    case (Inl err)
    with eq t show ?thesis by simp
  next
    case (Inr u)
    with eq t Cons.IH [of tml'] show ?thesis by simp
  qed
qed

lemma tick_tasks: "tasks (tick elapsed tml) = tasks tml"
  by (induction elapsed arbitrary: tml) (simp_all add: timer_elapse_def enqueueEvent_tasks)


subsection \<open>enqueueEvent: the two modes of the append\<close>

text \<open>
  C4. In live mode \<open>enqueueEvent\<close> appends the event and returns the length the history
  had before. In replay mode it moves the cursor to the first index after it that does
  not hold a \<open>TimerResolve\<close> (every index in between holds one); when the event there
  has the type and the sanitized fields of the incoming event, it stores the incoming
  event at the cursor and returns the cursor.
\<close>

theorem enqueueEvent_append:
  "(\<not> isReplay tml \<longrightarrow>
      enqueueEvent e tml = (Inr (length (history tml)), tml\<lparr>history := history tml @ [e]\<rparr>))
   \<and> (isReplay tml \<longrightarrow>
        (let j = fast_forward (history tml) (replayIndex tml) in
           replayIndex tml < j
         \<and> (\<forall>k. replayIndex tml < k \<and> k < j \<longrightarrow> is_TimerResolve (history_at (history tml) k))
         \<and> \<not> is_TimerResolve (history_at (history tml) j)
         \<and> replayIndex (snd (enqueueEvent e tml)) = j
         \<and> (\<forall>historyEvent.
               history_at (history tml) j = Some historyEvent
             \<and> type_of historyEvent = type_of e
             \<and> sanitizeEvent e = sanitizeEvent historyEvent \<longrightarrow>
               enqueueEvent e tml =
                 (Inr (nat j), tml\<lparr>replayIndex := j, history := (history tml)[nat j := e]\<rparr>))))"
proof (intro conjI impI)
  assume "\<not> isReplay tml"
  then show "enqueueEvent e tml = (Inr (length (history tml)), tml\<lparr>history := history tml @ [e]\<rparr>)"
    by (rule enqueueEvent_live)
next
  assume replay: "isReplay tml"
  define j where "j = fast_forward (history tml) (replayIndex tml)"
  have gt: "replayIndex tml < j"
    unfolding j_def by (rule fast_forward_gt)
  have skipped: "\<forall>k. replayIndex tml < k \<and> k < j \<longrightarrow> is_TimerResolve (history_at (history tml) k)"
    unfolding j_def using fast_forward_skipped by blast
  have stop: "\<not> is_TimerResolve (history_at (history tml) j)"
    unfolding j_def by (rule fast_forward_stop)
  have cursor: "replayIndex (snd (enqueueEvent e tml)) = j"
    using replay by (simp add: enqueueEvent_def j_def Let_def split: option.splits)
  have matched: "\<forall>historyEvent.
      history_at (history tml) j = Some historyEvent
    \<and> type_of historyEvent = type_of e
    \<and> sanitizeEvent e = sanitizeEvent historyEvent \<longrightarrow>
      enqueueEvent e tml =
        (Inr (nat j), tml\<lparr>replayIndex := j, history := (history tml)[nat j := e]\<rparr>)"
    using replay by (simp add: enqueueEvent_def j_def Let_def)
  from gt skipped stop cursor matched
  show "let j = fast_forward (history tml) (replayIndex tml) in
           replayIndex tml < j
         \<and> (\<forall>k. replayIndex tml < k \<and> k < j \<longrightarrow> is_TimerResolve (history_at (history tml) k))
         \<and> \<not> is_TimerResolve (history_at (history tml) j)
         \<and> replayIndex (snd (enqueueEvent e tml)) = j
         \<and> (\<forall>historyEvent.
               history_at (history tml) j = Some historyEvent
             \<and> type_of historyEvent = type_of e
             \<and> sanitizeEvent e = sanitizeEvent historyEvent \<longrightarrow>
               enqueueEvent e tml =
                 (Inr (nat j), tml\<lparr>replayIndex := j, history := (history tml)[nat j := e]\<rparr>))"
    unfolding j_def Let_def by blast
qed

theorem enqueueEvent_append_witness:
  "enqueueEvent PromiseCreate (Timeline []) =
     (Inr 0, \<lparr>history = [PromiseCreate], tasks = Map.empty, isReplay = False, replayIndex = -1\<rparr>)
   \<and> enqueueEvent (PromiseRegister (Num 0) (forward (Num 7)))
         (Timeline [TimerResolve (Num 5) False Undefined, PromiseRegister (Num 0) (\<lambda>b v. Done)]) =
     (Inr 1, \<lparr>history = [TimerResolve (Num 5) False Undefined, PromiseRegister (Num 0) (forward (Num 7))],
              tasks = Map.empty, isReplay = True, replayIndex = 1\<rparr>)"
  using enqueueEvent_append [of "Timeline []" PromiseCreate]
    enqueueEvent_append [of "Timeline [TimerResolve (Num 5) False Undefined, PromiseRegister (Num 0) (\<lambda>b v. Done)]"
       "PromiseRegister (Num 0) (forward (Num 7))"]
  by (simp add: Timeline_def fast_forward.simps history_at_def)

subsection \<open>enqueueEvent: a replayed event that differs from the recorded one\<close>

text \<open>
  C1, as the code has it. In replay mode, with the cursor moved to an event of the
  history: when the incoming event has another type, \<open>enqueueEvent\<close> throws
  \<open>InvalidSchedulerState\<close>, whose message gives the recorded type, the incoming type and
  the index of the cursor; when the type is the same and the sanitized fields differ, it
  throws the \<open>AssertionError\<close> of \<open>assert.deepStrictEqual\<close>, which holds the two
  sanitized events. In both cases the history is left as it was and the cursor stays at
  that event.
\<close>

theorem enqueueEvent_mismatch:
  assumes "isReplay tml"
    and "history_at (history tml) (fast_forward (history tml) (replayIndex tml)) = Some historyEvent"
  shows "(type_of historyEvent \<noteq> type_of e \<longrightarrow>
            enqueueEvent e tml =
              (Inl (InvalidSchedulerState
                 (Expected_got_at_history_index (type_of historyEvent) (type_of e)
                    (fast_forward (history tml) (replayIndex tml)))),
               tml\<lparr>replayIndex := fast_forward (history tml) (replayIndex tml)\<rparr>))
       \<and> (type_of historyEvent = type_of e \<and> sanitizeEvent e \<noteq> sanitizeEvent historyEvent \<longrightarrow>
            enqueueEvent e tml =
              (Inl (AssertionError (sanitizeEvent e) (sanitizeEvent historyEvent)),
               tml\<lparr>replayIndex := fast_forward (history tml) (replayIndex tml)\<rparr>))"
  using assms by (simp add: enqueueEvent_def Let_def)

theorem enqueueEvent_mismatch_witness:
  "enqueueEvent (PromiseResolve (Num 0) False (Num 1)) (Timeline [PromiseCreate]) =
     (Inl (InvalidSchedulerState (Expected_got_at_history_index ''PromiseCreate'' ''PromiseResolve'' 0)),
      \<lparr>history = [PromiseCreate], tasks = Map.empty, isReplay = True, replayIndex = 0\<rparr>)
   \<and> enqueueEvent (TimerStart 20 Done) (Timeline [TimerResolve (Num 3) False Undefined, TimerStart 10 Done]) =
     (Inl (AssertionError (STimerStart 20) (STimerStart 10)),
      \<lparr>history = [TimerResolve (Num 3) False Undefined, TimerStart 10 Done], tasks = Map.empty,
         isReplay = True, replayIndex = 1\<rparr>)"
  using enqueueEvent_mismatch [of "Timeline [PromiseCreate]" PromiseCreate
      "PromiseResolve (Num 0) False (Num 1)"]
    enqueueEvent_mismatch [of "Timeline [TimerResolve (Num 3) False Undefined, TimerStart 10 Done]"
      "TimerStart 10 Done" "TimerStart 20 Done"]
  by (simp add: Timeline_def fast_forward.simps history_at_def)

text \<open>
  The claim C1 names the error \<open>NonDeterminismError\<close> and has every mismatch report the
  types and the index. A \<open>PromiseResolve\<close> replayed against a recorded \<open>PromiseCreate\<close>
  throws \<open>InvalidSchedulerState\<close>; a \<open>PromiseResolve\<close> of value 2 replayed against the
  recorded one of value 1 throws an \<open>AssertionError\<close>, which holds no index.
\<close>

theorem enqueueEvent_mismatch_counterexample:
  "fst (enqueueEvent (PromiseResolve (Num 0) False (Num 1)) (Timeline [PromiseCreate])) =
     Inl (InvalidSchedulerState (Expected_got_at_history_index ''PromiseCreate'' ''PromiseResolve'' 0))
   \<and> error_name (InvalidSchedulerState
        (Expected_got_at_history_index ''PromiseCreate'' ''PromiseResolve'' 0)) \<noteq> ''NonDeterminismError''
   \<and> fst (enqueueEvent (PromiseResolve (Num 0) False (Num 2))
            (Timeline [PromiseResolve (Num 0) False (Num 1)])) =
     Inl (AssertionError (SPromiseResolve (Num 0) False (Num 2)) (SPromiseResolve (Num 0) False (Num 1)))
   \<and> error_name (AssertionError (SPromiseResolve (Num 0) False (Num 2))
        (SPromiseResolve (Num 0) False (Num 1))) \<noteq> ''NonDeterminismError''"
  by (simp add: enqueueEvent_def Timeline_def fast_forward.simps history_at_def)

subsection \<open>Registering on a rejected task\<close>

text \<open>
  C10. Handling a \<open>PromiseRegister\<close> event for a task in the state \<open>REJECTED\<close> changes
  nothing: the handler goes on with the same pending waits and the same timeline, so the
  callback is not added to the callbacks of the task, no \<open>PromiseComplete\<close> is enqueued
  and the callback is not called.
\<close>

theorem register_on_rejected:
  "tasks tml taskId = Some (Rejected cbs err) \<Longrightarrow>
   handle_event elapsed eventIndex (PromiseRegister taskId cb) (pendingPromises, tml) =
     (Inr Continue, pendingPromises, tml)"
  by (simp add: getTaskState_def)

theorem register_on_rejected_witness:
  "handle_event [] 1 (PromiseRegister (Num 0) (forward (Num 5)))
     ([], \<lparr>history = [PromiseCreate, PromiseRegister (Num 0) (forward (Num 5))],
           tasks = [Num 0 \<mapsto> Rejected [] (Str ''failed'')], isReplay = False, replayIndex = -1\<rparr>) =
   (Inr Continue, [],
    \<lparr>history = [PromiseCreate, PromiseRegister (Num 0) (forward (Num 5))],
      tasks = [Num 0 \<mapsto> Rejected [] (Str ''failed'')], isReplay = False, replayIndex = -1\<rparr>)"
  using register_on_rejected [of
      "\<lparr>history = [PromiseCreate, PromiseRegister (Num 0) (forward (Num 5))],
        tasks = [Num 0 \<mapsto> Rejected [] (Str ''failed'')], isReplay = False, replayIndex = -1\<rparr>"
      "Num 0" "[]" "Str ''failed''" "[]" 1 "forward (Num 5)" "[]"]
  by simp

subsection \<open>Timer cancellation\<close>

text \<open>
  C7, as the code has it. \<open>TimerCancelEvent\<close> is declared as an event interface of
  its own; the run loop has no case for its type, so handling such an event changes
  neither the pending waits nor the timeline; and in live mode a wait that elapses
  appends the \<open>TimerResolve\<close> of its task, whatever was handled before.
\<close>

theorem timer_cancel_ignored:
  "handle_event elapsed eventIndex (TimerCancel timerId) (pendingPromises, tml) =
       (Inr Continue, pendingPromises, tml)
   \<and> (\<not> isReplay tml \<longrightarrow>
        timer_elapse taskId tml =
          (Inr (length (history tml)),
           tml\<lparr>history := history tml @ [TimerResolve (Num (int taskId)) False Undefined]\<rparr>))"
  by (simp add: timer_elapse_def enqueueEvent_live)

theorem timer_cancel_ignored_witness:
  "timer_elapse 2 \<lparr>history = [TimerStart 10 Done, TimerCancel (Num 0), PromiseCreate],
                    tasks = Map.empty, isReplay = False, replayIndex = -1\<rparr> =
     (Inr 3, \<lparr>history = [TimerStart 10 Done, TimerCancel (Num 0), PromiseCreate,
                         TimerResolve (Num 2) False Undefined],
              tasks = Map.empty, isReplay = False, replayIndex = -1\<rparr>)"
  using timer_cancel_ignored [where taskId = 2 and tml =
      "\<lparr>history = [TimerStart 10 Done, TimerCancel (Num 0), PromiseCreate],
        tasks = Map.empty, isReplay = False, replayIndex = -1\<rparr>"]
  by simp

text \<open>
  The claim C7 has the scheduler accept a \<open>TimerCancel\<close> and suppress the wait of its
  timer. The union \<open>Event\<close> leaves the type out. A live run over a
  \<open>TimerStart\<close> followed by the cancellation of the timer, under the index \<open>setTimeout\<close>
  returned (0) and under the task of the timer (3): the run loop ends its pass waiting
  for the timer, and the elapsed wait appends its \<open>TimerResolve\<close>.
\<close>

theorem timer_cancel_counterexample:
  "\<not> in_Event_union (TimerCancel (Num 0))
   \<and> run_pass 5 (\<lambda>i. []) 0
     ([], \<lparr>history = [TimerStart 10 Done, TimerCancel (Num 0), TimerCancel (Num 3)],
           tasks = Map.empty, isReplay = False, replayIndex = -1\<rparr>) =
   (Run_awaits_timers, 5, [(10, 3)],
    \<lparr>history = [TimerStart 10 Done, TimerCancel (Num 0), TimerCancel (Num 3), PromiseCreate,
                PromiseRegister (Num 3) (\<lambda>valueIsTaskId v. Done)],
      tasks = [Num 3 \<mapsto> Created [\<lambda>valueIsTaskId v. Done]], isReplay = False, replayIndex = -1\<rparr>)
   \<and> fst (timer_elapse 3
        \<lparr>history = [TimerStart 10 Done, TimerCancel (Num 0), TimerCancel (Num 3), PromiseCreate,
                    PromiseRegister (Num 3) (\<lambda>valueIsTaskId v. Done)],
          tasks = [Num 3 \<mapsto> Created [\<lambda>valueIsTaskId v. Done]], isReplay = False, replayIndex = -1\<rparr>) =
       Inr 5
   \<and> history (snd (timer_elapse 3
        \<lparr>history = [TimerStart 10 Done, TimerCancel (Num 0), TimerCancel (Num 3), PromiseCreate,
                    PromiseRegister (Num 3) (\<lambda>valueIsTaskId v. Done)],
          tasks = [Num 3 \<mapsto> Created [\<lambda>valueIsTaskId v. Done]], isReplay = False, replayIndex = -1\<rparr>)) ! 5 =
       TimerResolve (Num 3) False Undefined"
  by (simp add: run_pass_def drain.simps enqueueEvent_def timer_elapse_def getTaskState_def
      numeral_nat)

subsection \<open>What a successful enqueueEvent leaves in the history\<close>

lemma enqueueEvent_replay_success:
  assumes "isReplay tml" and "enqueueEvent e tml = (Inr i, tml')"
  shows "i < length (history tml)"
    and "replayIndex tml < int i"
    and "tml' = tml\<lparr>replayIndex := int i, history := (history tml)[i := e]\<rparr>"
    and "type_of (history tml ! i) = type_of e"
proof -
  define j where "j = fast_forward (history tml) (replayIndex tml)"
  from assms obtain historyEvent where
    at: "history_at (history tml) j = Some historyEvent"
    and ty: "type_of historyEvent = type_of e"
    and i: "i = nat j"
    and tml': "tml' = tml\<lparr>replayIndex := j, history := (history tml)[nat j := e]\<rparr>"
    by (auto simp add: enqueueEvent_def j_def Let_def split: option.splits if_splits)
  from at have range: "0 \<le> j" "j < int (length (history tml))" and ev: "historyEvent = history tml ! nat j"
    by (auto simp add: history_at_def split: if_splits)
  from range i show "i < length (history tml)" by simp
  from fast_forward_gt [of "replayIndex tml" "history tml"] range i
  show "replayIndex tml < int i" by (simp add: j_def)
  from tml' range i show "tml' = tml\<lparr>replayIndex := int i, history := (history tml)[i := e]\<rparr>"
    by simp
  from ty ev i show "type_of (history tml ! i) = type_of e" by simp
qed

lemma enqueueEvent_stored:
  assumes "enqueueEvent e tml = (Inr i, tml')"
  shows "i < length (history tml') \<and> history tml' ! i = e"
proof (cases "isReplay tml")
  case True
  from enqueueEvent_replay_success [OF True assms] show ?thesis by simp
next
  case False
  with assms show ?thesis by (auto simp add: enqueueEvent_live)
qed

lemma type_of_PromiseCreate: "type_of e = ''PromiseCreate'' \<Longrightarrow> e = PromiseCreate"
  by (cases e) simp_all

lemma enqueueEvent_keeps_PromiseCreate:
  assumes "i < length (history tml)" and "history tml ! i = PromiseCreate"
  shows "i < length (history (snd (enqueueEvent e tml)))
       \<and> history (snd (enqueueEvent e tml)) ! i = PromiseCreate"
proof (cases "isReplay tml")
  case False
  with assms show ?thesis by (simp add: enqueueEvent_live nth_append)
next
  case True
  obtain r tml' where eq: "enqueueEvent e tml = (r, tml')" by (cases "enqueueEvent e tml")
  show ?thesis
  proof (cases r)
    case (Inl err)
    with eq True have "history tml' = history tml"
      by (auto simp add: enqueueEvent_def Let_def split: option.splits if_splits)
    with eq assms show ?thesis by simp
  next
    case (Inr k)
    note s = enqueueEvent_replay_success [OF True eq [unfolded Inr]]
    show ?thesis
    proof (cases "k = i")
      case True
      with s(4) assms have "type_of e = ''PromiseCreate''" by simp
      then have "e = PromiseCreate" by (rule type_of_PromiseCreate)
      with s(3) assms eq \<open>k = i\<close> show ?thesis by simp
    next
      case False
      with s(3) assms eq show ?thesis by simp
    qed
  qed
qed

subsection \<open>Starting a timer\<close>

text \<open>
  C8. Handling a \<open>TimerStart\<close> event enqueues a \<open>PromiseCreate\<close> and then a
  \<open>PromiseRegister\<close> of the timer's callback on the task of that \<open>PromiseCreate\<close>,
  and nothing else. In live mode the two events are appended and one wait is added to
  the pending ones, for the new task; when it elapses (in live mode) it appends the
  \<open>TimerResolve\<close> of that task. In replay mode the pending waits stay as they were,
  whether the handler returns or throws; when it returns, the two events sit in the
  history, the \<open>PromiseCreate\<close> before the \<open>PromiseRegister\<close>, the cursor is at the
  second, and the history keeps its length and its other entries.
\<close>

theorem timer_start:
  "(\<not> isReplay tml \<longrightarrow>
      handle_event elapsed eventIndex (TimerStart ms cb) (pendingPromises, tml) =
        (Inr Continue, pendingPromises @ [(ms, length (history tml))],
         tml\<lparr>history := history tml @
               [PromiseCreate,
                PromiseRegister (Num (int (length (history tml)))) (\<lambda>valueIsTaskId v. cb)]\<rparr>)
    \<and> (\<forall>tml'. \<not> isReplay tml' \<longrightarrow>
          timer_elapse (length (history tml)) tml' =
            (Inr (length (history tml')),
             tml'\<lparr>history := history tml' @
                    [TimerResolve (Num (int (length (history tml)))) False Undefined]\<rparr>)))
   \<and> (isReplay tml \<longrightarrow>
        fst (snd (handle_event elapsed eventIndex (TimerStart ms cb) (pendingPromises, tml))) =
          pendingPromises
      \<and> (\<forall>out s. handle_event elapsed eventIndex (TimerStart ms cb) (pendingPromises, tml) =
             (Inr out, s) \<longrightarrow>
           out = Continue
         \<and> length (history (snd s)) = length (history tml)
         \<and> (\<exists>j1 j2. replayIndex tml < int j1 \<and> j1 < j2 \<and> j2 < length (history tml)
              \<and> replayIndex (snd s) = int j2
              \<and> history (snd s) =
                  (history tml)[j1 := PromiseCreate,
                     j2 := PromiseRegister (Num (int j1)) (\<lambda>valueIsTaskId v. cb)])))"
proof (intro conjI impI allI)
  assume live: "\<not> isReplay tml"
  then show "handle_event elapsed eventIndex (TimerStart ms cb) (pendingPromises, tml) =
        (Inr Continue, pendingPromises @ [(ms, length (history tml))],
         tml\<lparr>history := history tml @
               [PromiseCreate,
                PromiseRegister (Num (int (length (history tml)))) (\<lambda>valueIsTaskId v. cb)]\<rparr>)"
    by (simp add: enqueueEvent_live)
next
  fix tml' :: timeline
  assume "\<not> isReplay tml'"
  then show "timer_elapse (length (history tml)) tml' =
            (Inr (length (history tml')),
             tml'\<lparr>history := history tml' @
                    [TimerResolve (Num (int (length (history tml)))) False Undefined]\<rparr>)"
    by (simp add: timer_elapse_def enqueueEvent_live)
next
  assume replay: "isReplay tml"
  obtain r1 tml1 where e1: "enqueueEvent PromiseCreate tml = (r1, tml1)"
    by (cases "enqueueEvent PromiseCreate tml")
  have r1: "isReplay tml1" using enqueueEvent_isReplay [of PromiseCreate tml] e1 replay by simp
  show "fst (snd (handle_event elapsed eventIndex (TimerStart ms cb) (pendingPromises, tml))) =
          pendingPromises"
  proof (cases r1)
    case (Inl err)
    with e1 show ?thesis by simp
  next
    case (Inr taskId)
    obtain r2 tml2 where e2:
      "enqueueEvent (PromiseRegister (Num (int taskId)) (\<lambda>valueIsTaskId v. cb)) tml1 = (r2, tml2)"
      by (cases "enqueueEvent (PromiseRegister (Num (int taskId)) (\<lambda>valueIsTaskId v. cb)) tml1")
    have "isReplay tml2"
      using enqueueEvent_isReplay [of "PromiseRegister (Num (int taskId)) (\<lambda>valueIsTaskId v. cb)" tml1]
        e2 r1 by simp
    with e1 e2 Inr show ?thesis by (cases r2) simp_all
  qed
next
  fix out s
  assume replay: "isReplay tml"
    and ok: "handle_event elapsed eventIndex (TimerStart ms cb) (pendingPromises, tml) = (Inr out, s)"
  obtain r1 tml1 where e1: "enqueueEvent PromiseCreate tml = (r1, tml1)"
    by (cases "enqueueEvent PromiseCreate tml")
  from ok e1 obtain j1 where r1: "r1 = Inr j1" by (cases r1) simp_all
  obtain r2 tml2 where e2:
    "enqueueEvent (PromiseRegister (Num (int j1)) (\<lambda>valueIsTaskId v. cb)) tml1 = (r2, tml2)"
    by (cases "enqueueEvent (PromiseRegister (Num (int j1)) (\<lambda>valueIsTaskId v. cb)) tml1")
  from ok e1 r1 e2 obtain j2 where r2: "r2 = Inr j2" by (cases r2) simp_all
  from ok e1 r1 e2 r2 have out: "out = Continue" and s: "snd s = tml2" by auto
  note s1 = enqueueEvent_replay_success [OF replay e1 [unfolded r1]]
  from s1(3) replay have replay1: "isReplay tml1" by simp
  note s2 = enqueueEvent_replay_success [OF replay1 e2 [unfolded r2]]
  from s1(3) s2(1) have j2: "j2 < length (history tml)" by simp
  from s1(3) s2(2) have j12: "j1 < j2" by simp
  from s1(3) s2(3) have tml2: "history tml2 =
      (history tml)[j1 := PromiseCreate, j2 := PromiseRegister (Num (int j1)) (\<lambda>valueIsTaskId v. cb)]"
    and cur: "replayIndex tml2 = int j2" by simp_all
  show "out = Continue" by (rule out)
  show "length (history (snd s)) = length (history tml)" using s tml2 by simp
  show "\<exists>j1 j2. replayIndex tml < int j1 \<and> j1 < j2 \<and> j2 < length (history tml)
              \<and> replayIndex (snd s) = int j2
              \<and> history (snd s) =
                  (history tml)[j1 := PromiseCreate,
                     j2 := PromiseRegister (Num (int j1)) (\<lambda>valueIsTaskId v. cb)]"
    using s1(2) j12 j2 cur tml2 s by blast
qed

theorem timer_start_witness:
  "handle_event [] 0 (TimerStart 10 Done) ([], \<lparr>history = [TimerStart 10 Done], tasks = Map.empty,
       isReplay = False, replayIndex = -1\<rparr>) =
     (Inr Continue, [(10, 1)],
      \<lparr>history = [TimerStart 10 Done, PromiseCreate, PromiseRegister (Num 1) (\<lambda>valueIsTaskId v. Done)],
        tasks = Map.empty, isReplay = False, replayIndex = -1\<rparr>)
   \<and> fst (snd (handle_event [] 0 (TimerStart 10 Done)
        ([], \<lparr>history = [TimerStart 10 Done, PromiseCreate,
                          PromiseRegister (Num 1) (\<lambda>valueIsTaskId v. Done),
                          TimerResolve (Num 1) False Undefined],
              tasks = Map.empty, isReplay = True, replayIndex = 0\<rparr>))) = []"
  using timer_start [where tml = "\<lparr>history = [TimerStart 10 Done], tasks = Map.empty,
         isReplay = False, replayIndex = -1\<rparr>" and ms = 10 and cb = Done and elapsed = "[]"
         and eventIndex = 0 and pendingPromises = "[]"]
    timer_start [where tml = "\<lparr>history = [TimerStart 10 Done, PromiseCreate,
                          PromiseRegister (Num 1) (\<lambda>valueIsTaskId v. Done),
                          TimerResolve (Num 1) False Undefined],
              tasks = Map.empty, isReplay = True, replayIndex = 0\<rparr>" and ms = 10 and cb = Done
         and elapsed = "[]" and eventIndex = 0 and pendingPromises = "[]"]
  by simp

subsection \<open>Completion of the root task\<close>

text \<open>
  C5, as the code has it. When the run loop reaches a \<open>PromiseComplete\<close> event of task 0,
  it calls the callbacks of the event in turn. If they all return, \<open>run\<close> returns right
  after them, whatever the other tasks and the pending waits are, and handles no later
  event. If one of them throws, \<open>run\<close> throws that error.
\<close>

theorem root_completion:
  assumes "eventIndex < length (history tml)"
    and "history tml ! eventIndex = PromiseComplete (Num 0) valueIsTaskId v cbs"
  shows "(call_all cbs valueIsTaskId v tml = (Inr u, tml') \<longrightarrow>
            run_pass (Suc fuel) sched eventIndex (pendingPromises, tml) =
              (Run_returned, eventIndex, pendingPromises, tml'))
       \<and> (call_all cbs valueIsTaskId v tml = (Inl err, tml') \<longrightarrow>
            run_pass (Suc fuel) sched eventIndex (pendingPromises, tml) =
              (Run_threw err, eventIndex, pendingPromises, tml'))"
  using assms by (simp add: run_pass_def drain.simps)

theorem root_completion_witness:
  "run_pass 1 (\<lambda>i. []) 1
     ([(10, 7)],
      \<lparr>history = [PromiseCreate, PromiseComplete (Num 0) False (Num 42) [forward (Num 3)], PromiseCreate],
        tasks = [Num 0 \<mapsto> Resolved [] False (Num 42), Num 3 \<mapsto> Created []],
        isReplay = False, replayIndex = -1\<rparr>) =
   (Run_returned, 1, [(10, 7)],
    \<lparr>history = [PromiseCreate, PromiseComplete (Num 0) False (Num 42) [forward (Num 3)], PromiseCreate,
                PromiseResolve (Num 3) False (Num 42)],
      tasks = [Num 0 \<mapsto> Resolved [] False (Num 42), Num 3 \<mapsto> Created []],
      isReplay = False, replayIndex = -1\<rparr>)"
proof -
  have "call_all [forward (Num 3)] False (Num 42)
          \<lparr>history = [PromiseCreate, PromiseComplete (Num 0) False (Num 42) [forward (Num 3)], PromiseCreate],
            tasks = [Num 0 \<mapsto> Resolved [] False (Num 42), Num 3 \<mapsto> Created []],
            isReplay = False, replayIndex = -1\<rparr> =
        (Inr (), \<lparr>history = [PromiseCreate, PromiseComplete (Num 0) False (Num 42) [forward (Num 3)],
                     PromiseCreate, PromiseResolve (Num 3) False (Num 42)],
           tasks = [Num 0 \<mapsto> Resolved [] False (Num 42), Num 3 \<mapsto> Created []],
           isReplay = False, replayIndex = -1\<rparr>)"
    by (simp add: forward_def enqueueEvent_def)
  with root_completion [where eventIndex = 1 and fuel = 0 and sched = "\<lambda>i. []"
      and pendingPromises = "[(10, 7)]" and cbs = "[forward (Num 3)]" and valueIsTaskId = False
      and v = "Num 42" and u = "()" and tml =
        "\<lparr>history = [PromiseCreate, PromiseComplete (Num 0) False (Num 42) [forward (Num 3)], PromiseCreate],
          tasks = [Num 0 \<mapsto> Resolved [] False (Num 42), Num 3 \<mapsto> Created []],
          isReplay = False, replayIndex = -1\<rparr>"]
  show ?thesis by simp
qed

text \<open>
  The claim C5 has the run loop end successfully at every such event. A history recorded
  for a workflow whose root task 0 has one callback that enqueues nothing, replayed by a
  workflow whose callback creates a promise: the replayed calls of \<open>main\<close> match the
  history, the run loop reaches the \<open>PromiseComplete\<close> of task 0 at index 3 and, in the
  callback, \<open>enqueueEvent\<close> reads past the end of the history; \<open>run\<close> throws.
\<close>

theorem root_completion_counterexample:
  "fst (call replayed_main (Timeline recorded)) = Inr ()
   \<and> fst (run_pass 4 (\<lambda>i. []) 0 ([], snd (call replayed_main (Timeline recorded)))) = Run_threw TypeError
   \<and> fst (snd (run_pass 4 (\<lambda>i. []) 0 ([], snd (call replayed_main (Timeline recorded))))) = 3
   \<and> type_of (recorded ! 3) = ''PromiseComplete''"
  by (simp add: run_pass_def drain.simps enqueueEvent_def getTaskState_def Timeline_def
      recorded_def replayed_main_def fast_forward.simps history_at_def numeral_nat)

subsection \<open>A settled task keeps its value\<close>

lemma enqueueEvent_tasks_eq: "enqueueEvent e tml = (r, tml') \<Longrightarrow> tasks tml' = tasks tml"
  using enqueueEvent_tasks [of e tml] by simp

lemma call_all_tasks_eq: "call_all cbs b v tml = (r, tml') \<Longrightarrow> tasks tml' = tasks tml"
  using call_all_tasks [of cbs b v tml] by simp

lemma resolve_tasks_other:
  assumes "taskId \<noteq> t \<or> valueIsTaskId"
  shows "tasks (snd (snd (resolve elapsed taskId valueIsTaskId w (pendingPromises, tml)))) t = tasks tml t"
proof (cases "getTaskState taskId tml")
  case (Inl err)
  then show ?thesis by simp
next
  case (Inr task)
  show ?thesis
  proof (cases valueIsTaskId)
    case True
    with Inr show ?thesis
      by (auto split: prod.splits sum.splits dest: enqueueEvent_tasks_eq)
  next
    case False
    with assms have "taskId \<noteq> t" by simp
    with Inr False show ?thesis
      by (auto simp add: Let_def tick_tasks split: prod.splits sum.splits
          dest!: enqueueEvent_tasks_eq)
  qed
qed

text \<open>
  C2, as the code has it. A task that is \<open>RESOLVED\<close> or \<open>REJECTED\<close> keeps its state and
  its value through the handling of every event but a \<open>PromiseResolve\<close> or
  \<open>TimerResolve\<close> of that same task with a plain value (and but the \<open>PromiseCreate\<close>
  at the index that is the task id): through a resolution with another task, through
  every registration, timer start and callback. And a callback registered on a
  \<open>RESOLVED\<close> task, when the handler returns, is in the history as the only callback of a
  \<open>PromiseComplete\<close> that carries the value stored for the task.
\<close>

theorem settled_task_keeps_value:
  assumes "tasks tml t = Some st"
    and "\<forall>cbs. st \<noteq> Created cbs"
    and "ev = PromiseCreate \<longrightarrow> t \<noteq> Num (int eventIndex)"
    and "\<forall>w. ev \<noteq> PromiseResolve t False w \<and> ev \<noteq> TimerResolve t False w"
  shows "tasks (snd (snd (handle_event elapsed eventIndex ev (pendingPromises, tml)))) t = Some st
       \<and> (\<forall>cb cbs valueIsTaskId v out pendingPromises' tml'.
             ev = PromiseRegister t cb \<and> st = Resolved cbs valueIsTaskId v
           \<and> handle_event elapsed eventIndex ev (pendingPromises, tml) = (Inr out, pendingPromises', tml')
           \<longrightarrow> (\<exists>i < length (history tml').
                  history tml' ! i = PromiseComplete t valueIsTaskId v [cb]))"
proof (intro conjI allI impI)
  show "tasks (snd (snd (handle_event elapsed eventIndex ev (pendingPromises, tml)))) t = Some st"
  proof (cases ev)
    case PromiseCreate
    with assms show ?thesis by simp
  next
    case (PromiseResolve taskId valueIsTaskId w)
    with assms(4) have "taskId \<noteq> t \<or> valueIsTaskId" by auto
    from resolve_tasks_other [OF this] PromiseResolve assms(1) show ?thesis by simp
  next
    case (TimerResolve taskId valueIsTaskId w)
    with assms(4) have "taskId \<noteq> t \<or> valueIsTaskId" by auto
    from resolve_tasks_other [OF this] TimerResolve assms(1) show ?thesis by simp
  next
    case (PromiseRegister taskId cb)
    show ?thesis
    proof (cases "taskId = t")
      case True
      with PromiseRegister assms(1,2) show ?thesis
        by (cases st)
          (auto simp add: getTaskState_def tick_tasks split: prod.splits sum.splits
            dest!: enqueueEvent_tasks_eq)
    next
      case False
      with PromiseRegister assms(1) show ?thesis
        by (auto simp add: getTaskState_def tick_tasks
            split: prod.splits sum.splits option.splits task_state.splits
            dest!: enqueueEvent_tasks_eq)
    qed
  next
    case (PromiseComplete taskId valueIsTaskId w cbs)
    with assms(1) show ?thesis
      by (auto split: prod.splits sum.splits dest!: call_all_tasks_eq)
  next
    case (TimerStart ms cb)
    with assms(1) show ?thesis
      by (auto split: prod.splits sum.splits dest!: enqueueEvent_tasks_eq)
  next
    case (TimerCancel timerId)
    with assms(1) show ?thesis by simp
  qed
next
  fix cb cbs valueIsTaskId v out pendingPromises' tml'
  assume a: "ev = PromiseRegister t cb \<and> st = Resolved cbs valueIsTaskId v
           \<and> handle_event elapsed eventIndex ev (pendingPromises, tml) = (Inr out, pendingPromises', tml')"
  with assms(1) obtain i where
    "enqueueEvent (PromiseComplete t valueIsTaskId v [cb]) (tick elapsed tml) = (Inr i, tml')"
    by (auto simp add: getTaskState_def split: prod.splits sum.splits)
  from enqueueEvent_stored [OF this]
  show "\<exists>i < length (history tml'). history tml' ! i = PromiseComplete t valueIsTaskId v [cb]"
    by blast
qed

theorem settled_task_keeps_value_witness:
  "tasks (snd (snd (handle_event [] 2 (PromiseResolve (Num 0) True (Num 5))
      ([], \<lparr>history = [PromiseCreate, PromiseResolve (Num 0) False (Num 1),
                        PromiseResolve (Num 0) True (Num 5)],
            tasks = [Num 0 \<mapsto> Resolved [] False (Num 1)], isReplay = False, replayIndex = -1\<rparr>))))
     (Num 0) = Some (Resolved [] False (Num 1))"
  using settled_task_keeps_value [where t = "Num 0" and st = "Resolved [] False (Num 1)"
      and ev = "PromiseResolve (Num 0) True (Num 5)" and eventIndex = 2 and elapsed = "[]"
      and pendingPromises = "[]" and tml =
        "\<lparr>history = [PromiseCreate, PromiseResolve (Num 0) False (Num 1),
                     PromiseResolve (Num 0) True (Num 5)],
          tasks = [Num 0 \<mapsto> Resolved [] False (Num 1)], isReplay = False, replayIndex = -1\<rparr>"]
  by simp

text \<open>
  The claim C2 has no later event change the value of a settled task. In the live run of
  \<open>resolve_twice\<close> the task 0 is \<open>RESOLVED\<close> with 1 after two events, and \<open>RESOLVED\<close>
  with 2 after the third, the second \<open>PromiseResolve\<close>; the callback registered after
  that gets a \<open>PromiseComplete\<close> with the value 2.
\<close>

theorem settled_task_keeps_value_counterexample:
  "fst (call resolve_twice (Timeline [])) = Inr ()
   \<and> tasks (snd (snd (snd (drain 2 (\<lambda>i. []) 0 ([], snd (call resolve_twice (Timeline [])))))))
        (Num 0) = Some (Resolved [] False (Num 1))
   \<and> tasks (snd (snd (snd (drain 3 (\<lambda>i. []) 0 ([], snd (call resolve_twice (Timeline [])))))))
        (Num 0) = Some (Resolved [] False (Num 2))
   \<and> sanitizeEvent
        (history (snd (snd (snd (drain 4 (\<lambda>i. []) 0 ([], snd (call resolve_twice (Timeline [])))))))
           ! 4) = SPromiseComplete (Num 0) False (Num 2)"
  by (simp add: drain.simps enqueueEvent_def getTaskState_def Timeline_def resolve_twice_def
      numeral_nat)

subsection \<open>Steps of the loop, and live mode\<close>




subsection \<open>Callbacks run in the order of their registration\<close>



subsection \<open>Resolving a task with another task\<close>






















subsection \<open>Task ids are log indices\<close>

lemma call_keeps_PromiseCreate:
  "i < length (history tml) \<Longrightarrow> history tml ! i = PromiseCreate \<Longrightarrow>
   i < length (history (snd (call a tml))) \<and> history (snd (call a tml)) ! i = PromiseCreate"
proof (induction a arbitrary: tml rule: action.induct [where ?P1.0 = "\<lambda>e. True"])
  case (Enqueue e k)
  obtain r tml' where eq: "enqueueEvent e tml = (r, tml')" by (cases "enqueueEvent e tml")
  with enqueueEvent_keeps_PromiseCreate [OF Enqueue.prems, of e]
  have keep: "i < length (history tml')" "history tml' ! i = PromiseCreate" by simp_all
  show ?case
  proof (cases r)
    case (Inl err)
    with eq keep show ?thesis by simp
  next
    case (Inr j)
    have "i < length (history (snd (call (k j) tml'))) \<and>
        history (snd (call (k j) tml')) ! i = PromiseCreate"
      by (rule Enqueue.IH) (simp_all add: keep)
    with eq Inr show ?thesis by simp
  qed
qed simp_all

lemma call_all_keeps_PromiseCreate:
  "i < length (history tml) \<Longrightarrow> history tml ! i = PromiseCreate \<Longrightarrow>
   i < length (history (snd (call_all cbs b v tml)))
   \<and> history (snd (call_all cbs b v tml)) ! i = PromiseCreate"
proof (induction cbs arbitrary: tml)
  case Nil
  then show ?case by simp
next
  case (Cons cb cbs)
  obtain r tml' where eq: "call (cb b v) tml = (r, tml')" by (cases "call (cb b v) tml")
  with call_keeps_PromiseCreate [OF Cons.prems, of "cb b v"]
  have keep: "i < length (history tml')" "history tml' ! i = PromiseCreate" by simp_all
  show ?case
  proof (cases r)
    case (Inl err)
    with eq keep show ?thesis by simp
  next
    case (Inr u)
    with eq Cons.IH [OF keep] show ?thesis by simp
  qed
qed

lemma tick_keeps_PromiseCreate:
  "i < length (history tml) \<Longrightarrow> history tml ! i = PromiseCreate \<Longrightarrow>
   i < length (history (tick elapsed tml)) \<and> history (tick elapsed tml) ! i = PromiseCreate"
proof (induction elapsed arbitrary: tml)
  case Nil
  then show ?case by simp
next
  case (Cons t elapsed)
  from enqueueEvent_keeps_PromiseCreate [OF Cons.prems, of "TimerResolve (Num (int t)) False Undefined"]
  have "i < length (history (snd (timer_elapse t tml)))"
    "history (snd (timer_elapse t tml)) ! i = PromiseCreate"
    by (simp_all add: timer_elapse_def)
  from Cons.IH [OF this] show ?case by simp
qed

lemma enqueueEvent_keeps_PromiseCreate_eq:
  assumes "i < length (history tml)" and "history tml ! i = PromiseCreate"
    and "enqueueEvent e tml = (r, tml')"
  shows "i < length (history tml')" and "history tml' ! i = PromiseCreate"
  using enqueueEvent_keeps_PromiseCreate [OF assms(1,2), of e] assms(3) by simp_all

lemma resolve_keeps_PromiseCreate:
  assumes "i < length (history tml)" and "history tml ! i = PromiseCreate"
  shows "i < length (history (snd (snd (resolve elapsed taskId valueIsTaskId v (pendingPromises, tml)))))
       \<and> history (snd (snd (resolve elapsed taskId valueIsTaskId v (pendingPromises, tml)))) ! i =
           PromiseCreate"
proof (cases "getTaskState taskId tml")
  case (Inl err)
  with assms show ?thesis by simp
next
  case (Inr task)
  show ?thesis
  proof (cases valueIsTaskId)
    case True
    obtain r tml' where eq: "enqueueEvent (PromiseRegister v (forward taskId)) tml = (r, tml')"
      by (cases "enqueueEvent (PromiseRegister v (forward taskId)) tml")
    from enqueueEvent_keeps_PromiseCreate_eq [OF assms eq] Inr True eq
    show ?thesis by (cases r) simp_all
  next
    case False
    define tml1 where
      "tml1 = tick elapsed (tml\<lparr>tasks := (tasks tml)(taskId \<mapsto> Resolved [] False v)\<rparr>)"
    have keep1: "i < length (history tml1)" "history tml1 ! i = PromiseCreate"
      using tick_keeps_PromiseCreate
          [of i "tml\<lparr>tasks := (tasks tml)(taskId \<mapsto> Resolved [] False v)\<rparr>" elapsed] assms
      by (simp_all add: tml1_def)
    obtain r tml' where eq:
      "enqueueEvent (PromiseComplete taskId False v (callbacks task)) tml1 = (r, tml')"
      by (cases "enqueueEvent (PromiseComplete taskId False v (callbacks task)) tml1")
    from enqueueEvent_keeps_PromiseCreate_eq [OF keep1 eq] keep1 Inr False eq
    show ?thesis by (cases r) (simp_all add: Let_def tml1_def [symmetric])
  qed
qed

lemma handle_event_keeps_PromiseCreate:
  assumes "i < length (history tml)" and "history tml ! i = PromiseCreate"
  shows "i < length (history (snd (snd (handle_event elapsed eventIndex ev (pendingPromises, tml)))))
       \<and> history (snd (snd (handle_event elapsed eventIndex ev (pendingPromises, tml)))) ! i =
           PromiseCreate"
proof (cases ev)
  case PromiseCreate
  with assms show ?thesis by simp
next
  case (PromiseResolve taskId valueIsTaskId v)
  with resolve_keeps_PromiseCreate [OF assms] show ?thesis by simp
next
  case (TimerResolve taskId valueIsTaskId v)
  with resolve_keeps_PromiseCreate [OF assms] show ?thesis by simp
next
  case (PromiseRegister taskId cb)
  show ?thesis
  proof (cases "getTaskState taskId tml")
    case (Inl err)
    with PromiseRegister assms show ?thesis by simp
  next
    case (Inr task)
    show ?thesis
    proof (cases task)
      case (Created cbs)
      with PromiseRegister Inr assms show ?thesis by simp
    next
      case (Rejected cbs err)
      with PromiseRegister Inr assms show ?thesis by simp
    next
      case (Resolved cbs valueIsTaskId v)
      have keep1: "i < length (history (tick elapsed tml))" "history (tick elapsed tml) ! i = PromiseCreate"
        using tick_keeps_PromiseCreate [OF assms, of elapsed] by simp_all
      obtain r tml' where eq:
        "enqueueEvent (PromiseComplete taskId valueIsTaskId v [cb]) (tick elapsed tml) = (r, tml')"
        by (cases "enqueueEvent (PromiseComplete taskId valueIsTaskId v [cb]) (tick elapsed tml)")
      from enqueueEvent_keeps_PromiseCreate_eq [OF keep1 eq] PromiseRegister Inr Resolved eq
      show ?thesis by (cases r) simp_all
    qed
  qed
next
  case (PromiseComplete taskId valueIsTaskId v cbs)
  obtain r tml' where eq: "call_all cbs valueIsTaskId v tml = (r, tml')"
    by (cases "call_all cbs valueIsTaskId v tml")
  with call_all_keeps_PromiseCreate [OF assms, of cbs valueIsTaskId v] PromiseComplete
  show ?thesis by (cases r) simp_all
next
  case (TimerStart ms cb)
  obtain r1 tml1 where e1: "enqueueEvent PromiseCreate tml = (r1, tml1)"
    by (cases "enqueueEvent PromiseCreate tml")
  note k1 = enqueueEvent_keeps_PromiseCreate_eq [OF assms e1]
  show ?thesis
  proof (cases r1)
    case (Inl err)
    with TimerStart e1 k1 show ?thesis by simp
  next
    case (Inr taskId)
    obtain r2 tml2 where e2:
      "enqueueEvent (PromiseRegister (Num (int taskId)) (\<lambda>valueIsTaskId v. cb)) tml1 = (r2, tml2)"
      by (cases "enqueueEvent (PromiseRegister (Num (int taskId)) (\<lambda>valueIsTaskId v. cb)) tml1")
    from enqueueEvent_keeps_PromiseCreate_eq [OF k1 e2] TimerStart e1 Inr e2
    show ?thesis by (cases r2) simp_all
  qed
next
  case (TimerCancel timerId)
  with assms show ?thesis by simp
qed

lemma handle_event_keeps_task:
  assumes "tasks tml t \<noteq> None"
  shows "tasks (snd (snd (handle_event elapsed eventIndex ev (pendingPromises, tml)))) t \<noteq> None"
proof (cases ev)
  case PromiseCreate
  with assms show ?thesis by simp
next
  case (PromiseResolve taskId valueIsTaskId v)
  with assms show ?thesis
    by (auto simp add: Let_def tick_tasks split: prod.splits sum.splits if_splits
        dest!: enqueueEvent_tasks_eq)
next
  case (TimerResolve taskId valueIsTaskId v)
  with assms show ?thesis
    by (auto simp add: Let_def tick_tasks split: prod.splits sum.splits if_splits
        dest!: enqueueEvent_tasks_eq)
next
  case (PromiseRegister taskId cb)
  with assms show ?thesis
    by (auto simp add: tick_tasks split: prod.splits sum.splits task_state.splits if_splits
        dest!: enqueueEvent_tasks_eq)
next
  case (PromiseComplete taskId valueIsTaskId v cbs)
  with assms show ?thesis
    by (auto split: prod.splits sum.splits dest!: call_all_tasks_eq)
next
  case (TimerStart ms cb)
  with assms show ?thesis
    by (auto split: prod.splits sum.splits dest!: enqueueEvent_tasks_eq)
next
  case (TimerCancel timerId)
  with assms show ?thesis by simp
qed

lemma drain_installs_task:
  assumes "i < length (history tml)" and "history tml ! i = PromiseCreate"
    and "eventIndex \<le> i \<or> tasks tml (Num (int i)) \<noteq> None"
    and "drain fuel sched eventIndex (pendingPromises, tml) = (st, n, pendingPromises', tml')"
  shows "i < length (history tml') \<and> history tml' ! i = PromiseCreate
       \<and> (i < n \<longrightarrow> tasks tml' (Num (int i)) \<noteq> None)"
  using assms
proof (induction fuel arbitrary: eventIndex pendingPromises tml)
  case 0
  then show ?case by (auto simp add: drain.simps split: if_splits)
next
  case (Suc fuel)
  show ?case
  proof (cases "eventIndex < length (history tml)")
    case False
    with Suc.prems show ?thesis by (auto simp add: drain.simps)
  next
    case True
    obtain r pp1 tml1 where h:
      "handle_event (sched eventIndex) eventIndex (history tml ! eventIndex) (pendingPromises, tml) =
         (r, pp1, tml1)"
      by (cases "handle_event (sched eventIndex) eventIndex (history tml ! eventIndex)
            (pendingPromises, tml)") auto
    from handle_event_keeps_PromiseCreate [OF Suc.prems(1,2), of "sched eventIndex" eventIndex
        "history tml ! eventIndex" pendingPromises] h
    have keep: "i < length (history tml1)" "history tml1 ! i = PromiseCreate" by simp_all
    have inst: "Suc eventIndex \<le> i \<or> tasks tml1 (Num (int i)) \<noteq> None"
    proof (cases "eventIndex < i")
      case True
      then show ?thesis by simp
    next
      case False
      show ?thesis
      proof (cases "eventIndex = i")
        case True
        with Suc.prems(2) h have "tasks tml1 (Num (int i)) \<noteq> None" by auto
        then show ?thesis by simp
      next
        case False
        with \<open>\<not> eventIndex < i\<close> Suc.prems(3) have "tasks tml (Num (int i)) \<noteq> None" by simp
        from handle_event_keeps_task [OF this, of "sched eventIndex" eventIndex
            "history tml ! eventIndex" pendingPromises] h
        show ?thesis by simp
      qed
    qed
    have after: "eventIndex \<le> i \<or> tasks tml1 (Num (int i)) \<noteq> None \<Longrightarrow>
        i < eventIndex \<longrightarrow> tasks tml1 (Num (int i)) \<noteq> None" by auto
    show ?thesis
    proof (cases r)
      case (Inl err)
      with Suc.prems(4) True h have "n = eventIndex" "tml' = tml1" by (simp_all add: drain.simps)
      with keep inst show ?thesis by auto
    next
      case (Inr out)
      show ?thesis
      proof (cases out)
        case Return
        with Inr Suc.prems(4) True h have "n = eventIndex" "tml' = tml1"
          by (simp_all add: drain.simps)
        with keep inst show ?thesis by auto
      next
        case Continue
        with Inr Suc.prems(4) True h
        have "drain fuel sched (Suc eventIndex) (pp1, tml1) = (st, n, pendingPromises', tml')"
          by (simp add: drain.simps)
        from Suc.IH [OF keep inst this] show ?thesis .
      qed
    qed
  qed
qed

text \<open>
  C9. When \<open>enqueueEvent\<close> returns the index \<open>i\<close> for a \<open>PromiseCreate\<close>, in live or in
  replay mode, the history holds a \<open>PromiseCreate\<close> at \<open>i\<close>, and it still does after
  any further calls of \<open>enqueueEvent\<close>. When the run loop handles the event at \<open>i\<close> it
  stores the state \<open>CREATED\<close> with no callbacks under the key \<open>i\<close>, the task id the
  caller of \<open>enqueueEvent\<close> got. And in every run of the loop that starts at or before
  \<open>i\<close>, the event at \<open>i\<close> stays a \<open>PromiseCreate\<close> and, once the loop is past \<open>i\<close>,
  the task table has a state under the key \<open>i\<close>.
\<close>

theorem task_id_is_log_index:
  assumes "enqueueEvent PromiseCreate tml = (Inr i, tml1)"
  shows "i < length (history tml1)
       \<and> history tml1 ! i = PromiseCreate
       \<and> i < length (history (snd (call a tml1)))
       \<and> history (snd (call a tml1)) ! i = PromiseCreate
       \<and> handle_event elapsed i (history tml1 ! i) (pendingPromises, tml1) =
           (Inr Continue, pendingPromises,
            tml1\<lparr>tasks := (tasks tml1)(Num (int i) \<mapsto> Created [])\<rparr>)
       \<and> (\<forall>eventIndex st n pendingPromises' tml'.
             eventIndex \<le> i
           \<and> drain fuel sched eventIndex (pendingPromises, snd (call a tml1)) =
               (st, n, pendingPromises', tml') \<longrightarrow>
             i < length (history tml') \<and> history tml' ! i = PromiseCreate
           \<and> (i < n \<longrightarrow> tasks tml' (Num (int i)) \<noteq> None))"
proof -
  from enqueueEvent_stored [OF assms]
  have stored: "i < length (history tml1)" "history tml1 ! i = PromiseCreate" by simp_all
  note later = call_keeps_PromiseCreate [OF stored, of a]
  have run: "i < length (history tml') \<and> history tml' ! i = PromiseCreate
           \<and> (i < n \<longrightarrow> tasks tml' (Num (int i)) \<noteq> None)"
    if "eventIndex \<le> i
           \<and> drain fuel sched eventIndex (pendingPromises, snd (call a tml1)) =
               (st, n, pendingPromises', tml')"
    for eventIndex st n pendingPromises' tml'
  proof (rule drain_installs_task)
    show "i < length (history (snd (call a tml1)))" using later by simp
    show "history (snd (call a tml1)) ! i = PromiseCreate" using later by simp
    show "eventIndex \<le> i \<or> tasks (snd (call a tml1)) (Num (int i)) \<noteq> None" using that by simp
    show "drain fuel sched eventIndex (pendingPromises, snd (call a tml1)) =
               (st, n, pendingPromises', tml')" using that by simp
  qed
  from stored later run show ?thesis by simp
qed

theorem task_id_is_log_index_witness:
  "handle_event [] 2
     (history \<lparr>history = [TimerStart 5 Done, TimerResolve (Num 2) False Undefined, PromiseCreate],
               tasks = Map.empty, isReplay = True, replayIndex = 2\<rparr> ! 2)
     ([], \<lparr>history = [TimerStart 5 Done, TimerResolve (Num 2) False Undefined, PromiseCreate],
           tasks = Map.empty, isReplay = True, replayIndex = 2\<rparr>) =
   (Inr Continue, [],
    \<lparr>history = [TimerStart 5 Done, TimerResolve (Num 2) False Undefined, PromiseCreate],
      tasks = [Num 2 \<mapsto> Created []], isReplay = True, replayIndex = 2\<rparr>)
   \<and> tasks (snd (snd (snd (drain 1 (\<lambda>i. []) 0
        ([], \<lparr>history = [PromiseCreate], tasks = Map.empty, isReplay = False, replayIndex = -1\<rparr>)))))
       (Num 0) \<noteq> None"
proof -
  have "enqueueEvent PromiseCreate
          \<lparr>history = [TimerStart 5 Done, TimerResolve (Num 2) False Undefined, PromiseCreate],
            tasks = Map.empty, isReplay = True, replayIndex = 0\<rparr> =
        (Inr 2, \<lparr>history = [TimerStart 5 Done, TimerResolve (Num 2) False Undefined, PromiseCreate],
                 tasks = Map.empty, isReplay = True, replayIndex = 2\<rparr>)"
    by (simp add: enqueueEvent_def fast_forward.simps history_at_def)
  from task_id_is_log_index [OF this, of Done "[]" "[]"]
  have replay: "handle_event [] 2
     (history \<lparr>history = [TimerStart 5 Done, TimerResolve (Num 2) False Undefined, PromiseCreate],
               tasks = Map.empty, isReplay = True, replayIndex = 2\<rparr> ! 2)
     ([], \<lparr>history = [TimerStart 5 Done, TimerResolve (Num 2) False Undefined, PromiseCreate],
           tasks = Map.empty, isReplay = True, replayIndex = 2\<rparr>) =
   (Inr Continue, [],
    \<lparr>history = [TimerStart 5 Done, TimerResolve (Num 2) False Undefined, PromiseCreate],
      tasks = [Num 2 \<mapsto> Created []], isReplay = True, replayIndex = 2\<rparr>)"
    by simp
  let ?W = "\<lparr>history = [PromiseCreate], tasks = Map.empty, isReplay = False, replayIndex = -1\<rparr>"
  have e: "enqueueEvent PromiseCreate (Timeline []) = (Inr 0, ?W)"
    by (simp add: enqueueEvent_def Timeline_def)
  have d: "(0::nat) \<le> 0 \<and> drain 1 (\<lambda>i. []) 0 ([], snd (call Done ?W)) =
      (Drained, 1, [], ?W\<lparr>tasks := [Num 0 \<mapsto> Created []]\<rparr>)"
    by (simp add: drain.simps)
  from task_id_is_log_index [OF e, where a = Done and fuel = 1 and sched = "\<lambda>i. []"
      and pendingPromises = "[]", THEN conjunct2, THEN conjunct2, THEN conjunct2, THEN conjunct2,
      THEN conjunct2, THEN spec, THEN spec, THEN spec, THEN spec, THEN spec, THEN mp, OF d]
  have live: "tasks (snd (snd (snd (drain 1 (\<lambda>i. []) 0 ([], ?W))))) (Num 0) \<noteq> None"
    using d by simp
  from replay live show ?thesis by blast
qed

end
